theory Spec2Isabelle
  imports Complex_Main "HOL-Library.Log_Nat"
begin

section \<open>Python values used by the worker utilities\<close>

text \<open>
  The module \<^verbatim>\<open>workers/worker/utils/__init__.py\<close> is modelled function by function.
  Python integers are \<^typ>\<open>int\<close>. Byte strings and the Latin-1 text of HTTP headers and
  of captured tool output are lists of 8-bit characters. An exception is a value of an
  error datatype, returned on the left of a sum.
\<close>

type_synonym bytes = "char list"

definition LF :: char where "LF = CHR 0x0A"
definition CR :: char where "CR = CHR 0x0D"
definition TAB :: char where "TAB = CHR 0x09"

definition is_digit :: "char \<Rightarrow> bool" where
  "is_digit c = (c \<in> set ''0123456789'')"

definition digit_val :: "char \<Rightarrow> int" where
  "digit_val c = int (of_char c) - 48"

definition int_of_digits :: "string \<Rightarrow> int" where
  \<comment> \<open>\<^verbatim>\<open>int(s)\<close> for a string of decimal digits\<close>
  "int_of_digits ds = foldl (\<lambda>a c. 10 * a + digit_val c) 0 ds"

fun str_nat :: "nat \<Rightarrow> string" where
  "str_nat n = (if n < 10 then [''0123456789'' ! n]
                else str_nat (n div 10) @ [''0123456789'' ! (n mod 10)])"

definition str_int :: "int \<Rightarrow> string" where
  \<comment> \<open>\<^verbatim>\<open>str(n)\<close>, also what \<^verbatim>\<open>"{}".format(n)\<close> inserts\<close>
  "str_int n = (if n < 0 then CHR ''-'' # str_nat (nat (- n)) else str_nat (nat n))"

definition repeat :: "char \<Rightarrow> int \<Rightarrow> string" where
  \<comment> \<open>\<^verbatim>\<open>c * n\<close> on a one-character string: empty when \<open>n\<close> is negative\<close>
  "repeat c n = replicate (nat n) c"

subsection \<open>Sequencing of calls that may raise\<close>

definition and_then :: "'e + 'a \<Rightarrow> ('a \<Rightarrow> 'e + 'b) \<Rightarrow> 'e + 'b" where
  "and_then r f = (case r of Inl e \<Rightarrow> Inl e | Inr v \<Rightarrow> f v)"

subsection \<open>Floats\<close>

text \<open>
  A Python float is an IEEE 754 binary64 number. A finite one is the rational it denotes;
  the sign of zero is not kept, since no output of the module depends on it. Every
  arithmetic result is the exact result rounded to the nearest double, ties to the even
  significand; the significand has 53 bits, the least exponent of a normal number is
  \<open>-1022\<close>, and a result that rounds to \<open>2 ^ 1024\<close> or more is an infinity.
\<close>

datatype pyfloat = Finite rat | PosInf | NegInf | NaN

datatype arith_error = ZeroDivisionError | OverflowError | ValueError

definition pow2 :: "int \<Rightarrow> rat" where
  "pow2 k = (if 0 \<le> k then 2 ^ nat k else 1 / 2 ^ nat (- k))"

definition ilog2 :: "rat \<Rightarrow> int" where
  \<comment> \<open>for \<open>0 < x\<close>: the \<open>e\<close> with \<open>2 ^ e \<le> x < 2 ^ (e + 1)\<close>\<close>
  "ilog2 x = (if 1 \<le> x then bitlen \<lfloor>x\<rfloor> - 1 else - bitlen (\<lceil>1 / x\<rceil> - 1))"

definition round_half_even :: "rat \<Rightarrow> int" where
  "round_half_even x =
     (let f = \<lfloor>x\<rfloor>; d = x - of_int f
      in if d < 1 / 2 then f else if 1 / 2 < d then f + 1 else if even f then f else f + 1)"

definition nearest_double :: "rat \<Rightarrow> rat" where
  \<comment> \<open>for \<open>0 \<le> x\<close>: \<open>x\<close> rounded to 53 significant bits, exponent range not yet bounded above\<close>
  "nearest_double x =
     (if x = 0 then 0
      else let q = max (ilog2 x) (- 1022) - 52
           in of_int (round_half_even (x / pow2 q)) * pow2 q)"

definition round_double :: "rat \<Rightarrow> pyfloat" where
  "round_double x =
     (let r = nearest_double \<bar>x\<bar>
      in if pow2 1024 \<le> r then (if 0 < x then PosInf else NegInf)
         else Finite (if 0 < x then r else - r))"

definition py_float :: "int \<Rightarrow> arith_error + pyfloat" where
  \<comment> \<open>\<^verbatim>\<open>float(n)\<close>, and the conversion of an int operand of a float operation:
      OverflowError when the int is too large for a double\<close>
  "py_float n = (case round_double (of_int n) of
                   Finite r \<Rightarrow> Inr (Finite r)
                 | _ \<Rightarrow> Inl OverflowError)"

fun float_div :: "pyfloat \<Rightarrow> pyfloat \<Rightarrow> pyfloat" where
  \<comment> \<open>IEEE division by a divisor that is not zero\<close>
  "float_div (Finite x) (Finite y) = round_double (x / y)"
| "float_div (Finite x) PosInf = Finite 0"
| "float_div (Finite x) NegInf = Finite 0"
| "float_div PosInf (Finite y) = (if 0 < y then PosInf else NegInf)"
| "float_div NegInf (Finite y) = (if 0 < y then NegInf else PosInf)"
| "float_div _ _ = NaN"

fun float_mul :: "pyfloat \<Rightarrow> pyfloat \<Rightarrow> pyfloat" where
  "float_mul (Finite x) (Finite y) = round_double (x * y)"
| "float_mul NaN _ = NaN"
| "float_mul _ NaN = NaN"
| "float_mul (Finite x) PosInf = (if x = 0 then NaN else if 0 < x then PosInf else NegInf)"
| "float_mul (Finite x) NegInf = (if x = 0 then NaN else if 0 < x then NegInf else PosInf)"
| "float_mul PosInf (Finite y) = (if y = 0 then NaN else if 0 < y then PosInf else NegInf)"
| "float_mul NegInf (Finite y) = (if y = 0 then NaN else if 0 < y then NegInf else PosInf)"
| "float_mul PosInf PosInf = PosInf"
| "float_mul NegInf NegInf = PosInf"
| "float_mul PosInf NegInf = NegInf"
| "float_mul NegInf PosInf = NegInf"

fun float_less :: "pyfloat \<Rightarrow> pyfloat \<Rightarrow> bool" where
  "float_less NaN _ = False"
| "float_less _ NaN = False"
| "float_less (Finite x) (Finite y) = (x < y)"
| "float_less NegInf NegInf = False"
| "float_less NegInf _ = True"
| "float_less _ NegInf = False"
| "float_less PosInf _ = False"
| "float_less _ PosInf = True"

definition py_truediv :: "pyfloat \<Rightarrow> int \<Rightarrow> arith_error + pyfloat" where
  \<comment> \<open>\<^verbatim>\<open>a / n\<close> for a float \<open>a\<close> and an int \<open>n\<close>: the int is converted first, then a
      zero divisor raises\<close>
  "py_truediv a n =
     and_then (py_float n)
       (\<lambda>b. if b = Finite 0 then Inl ZeroDivisionError else Inr (float_div a b))"

definition py_mul :: "pyfloat \<Rightarrow> int \<Rightarrow> arith_error + pyfloat" where
  \<comment> \<open>\<^verbatim>\<open>a * n\<close> for a float \<open>a\<close> and an int \<open>n\<close>\<close>
  "py_mul a n = and_then (py_float n) (\<lambda>b. Inr (float_mul a b))"

definition py_min :: "pyfloat \<Rightarrow> pyfloat \<Rightarrow> pyfloat" where
  \<comment> \<open>\<^verbatim>\<open>min(a, b)\<close>: the first argument unless the second is smaller\<close>
  "py_min a b = (if float_less b a then b else a)"

definition py_int :: "pyfloat \<Rightarrow> arith_error + int" where
  \<comment> \<open>\<^verbatim>\<open>int(a)\<close>: truncation towards zero\<close>
  "py_int a = (case a of
                 Finite x \<Rightarrow> Inr (if 0 \<le> x then \<lfloor>x\<rfloor> else \<lceil>x\<rceil>)
               | NaN \<Rightarrow> Inl ValueError
               | _ \<Rightarrow> Inl OverflowError)"

section \<open>The progress reporter\<close>

datatype pyarg = PyInt int | PyBytes bytes

record report_hook =
  current_size :: int
  width :: int
  last_line :: "string option"
  printed :: "string list"

text \<open>
  \<open>printed\<close> is the sequence of texts handed to \<^verbatim>\<open>ReportHook.print\<close>, oldest first.
  \<open>hook_line\<close> is the value of the local \<^verbatim>\<open>line\<close> of \<^verbatim>\<open>reporthook\<close>, computed after the
  counter has been updated.
\<close>

definition hook_ratio :: "int \<Rightarrow> int \<Rightarrow> arith_error + pyfloat" where
  \<comment> \<open>line 50: \<^verbatim>\<open>min(float(self._current_size) / total_size, 1.0)\<close>\<close>
  "hook_ratio cur total_size =
     and_then (py_float cur) (\<lambda>c.
     and_then (py_truediv c total_size) (\<lambda>q.
     Inr (py_min q (Finite 1))))"

definition hook_line :: "report_hook \<Rightarrow> int \<Rightarrow> arith_error + string" where
  "hook_line self total_size =
     (let avail_dots = width self - 2
      in if total_size = - 1 then Inr ''unknown size''
         else if total_size \<le> current_size self
         then Inr (''['' @ repeat CHR ''.'' avail_dots @ ''] 100%'' @ [LF])
         else
           and_then (hook_ratio (current_size self) total_size) (\<lambda>ratio.
           and_then (py_mul ratio avail_dots) (\<lambda>p.
           and_then (py_int p) (\<lambda>d.
           let shaded_dots = min d avail_dots in
           and_then (py_mul ratio 100) (\<lambda>p'.
           and_then (py_int p') (\<lambda>d'.
           let percent = min d' 100 in
           Inr (''['' @ repeat CHR ''.'' shaded_dots
                  @ repeat CHR '' '' (avail_dots - shaded_dots)
                  @ ''] '' @ str_int percent @ ''%'' @ [CR])))))))"

definition reporthook ::
  "pyarg \<Rightarrow> int \<Rightarrow> int \<Rightarrow> report_hook \<Rightarrow> arith_error option \<times> report_hook" where
  "reporthook chunk chunk_size total_size self =
     (let self' = (if chunk \<noteq> PyInt 0
                   then self\<lparr>current_size := current_size self + chunk_size\<rparr>
                   else self)
      in case hook_line self' total_size of
           Inl e \<Rightarrow> (Some e, self')
         | Inr line \<Rightarrow>
             if Some line \<noteq> last_line self'
             then (None, self'\<lparr>last_line := Some line, printed := printed self' @ [line]\<rparr>)
             else (None, self'))"

definition ReportHook :: "arith_error option \<times> report_hook" where
  \<comment> \<open>the constructor: the fields are set, then the empty bar is displayed\<close>
  "ReportHook =
     reporthook (PyInt 0) 0 100
       \<lparr>current_size = 0, width = 60, last_line = None, printed = []\<rparr>"


text \<open>
  A sequence of calls on one reporter, each given as its three arguments. A call that
  raises has still updated the counter, and the next call finds the object as it was left.
\<close>

fun run_calls :: "(pyarg \<times> int \<times> int) list \<Rightarrow> report_hook \<Rightarrow> report_hook" where
  "run_calls [] self = self"
| "run_calls ((chunk, chunk_size, total_size) # rest) self =
     run_calls rest (snd (reporthook chunk chunk_size total_size self))"

subsection \<open>The rendering rule in the words of the specification\<close>

text \<open>
  A bar of \<open>slots\<close> dot slots of which \<open>dots\<close> are filled, the remainder padded with
  spaces, followed by the percentage. The specification fills
  \<open>round_down (ratio * dot_slots)\<close> slots and shows \<open>round_down (ratio * 100)\<close>, clamped
  to 100, where \<open>ratio = min (cumulative / total, 1.0)\<close>; a full bar at 100% ends with a
  line break, any other bar with a carriage return.
\<close>

definition bar :: "int \<Rightarrow> int \<Rightarrow> int \<Rightarrow> string" where
  "bar slots dots percent =
     ''['' @ repeat CHR ''.'' dots @ repeat CHR '' '' (slots - dots) @ ''] ''
       @ str_int percent @ ''%''"

definition full_bar :: "int \<Rightarrow> string" where
  "full_bar slots = bar slots slots 100 @ [LF]"

definition partial_bar :: "int \<Rightarrow> rat \<Rightarrow> string" where
  "partial_bar slots ratio =
     bar slots \<lfloor>nearest_double (ratio * of_int slots)\<rfloor>
       (min \<lfloor>nearest_double (ratio * 100)\<rfloor> 100) @ [CR]"

section \<open>The retrying stream fetcher\<close>

definition FAILURE_RETRIES :: int where
  "FAILURE_RETRIES = 6"

text \<open>
  The arguments of \<^verbatim>\<open>urllib3.util.retry.Retry\<close> that \<^verbatim>\<open>stream\<close> passes. \<open>redirect\<close> is
  \<open>None\<close> for the source's \<^verbatim>\<open>False\<close> (redirects are not tracked) and a count otherwise.
\<close>

record Retry =
  total :: int
  connect :: int
  read :: int
  status :: int
  redirect :: "int option"
  backoff_factor :: int
  status_forcelist :: "int list"

text \<open>
  What \<^verbatim>\<open>stream\<close> reads of a response: the status code, the value of the
  \<^verbatim>\<open>content-length\<close> header when there is one, and for a chunk size the chunks that
  \<^verbatim>\<open>iter_content\<close> yields, followed by the message of the exception that ends the iteration
  when the connection breaks before the body is complete.
\<close>

record response =
  status_code :: int
  content_length :: "string option"
  iter_content :: "int \<Rightarrow> bytes list \<times> string option"

text \<open>
  The world outside the function: \<open>http_get\<close> is \<^verbatim>\<open>session.get(url, stream=True)\<close> on a
  session with the given adapters mounted (left: the message of the exception it raises
  once the retries are used up); \<open>fs_open\<close> gives the message of the OSError that opening
  a path for writing raises, if any; \<open>fs_write\<close> gives the message of the OSError that
  writing the second argument after the first raises, if any.
\<close>

record environment =
  http_get :: "(string \<times> Retry) list \<Rightarrow> string \<Rightarrow> string + response"
  fs_open :: "string \<Rightarrow> string option"
  fs_write :: "bytes \<Rightarrow> bytes \<Rightarrow> string option"

text \<open>
  A binary stream object, as far as the function uses one: its bytes, its position and
  whether it has been closed. \<open>File\<close> is the object \<^verbatim>\<open>open(write_to, "wb")\<close> returns,
  \<open>BytesIO\<close> is \<^verbatim>\<open>io.BytesIO()\<close>.
\<close>

record stream_obj =
  data :: bytes
  pos :: nat
  closed :: bool

datatype fd_obj = File string stream_obj | BytesIO stream_obj

datatype dest = Path string | Handle fd_obj

text \<open>
  The exceptions that leave \<^verbatim>\<open>stream\<close>, one constructor for each place that raises:
  \<open>RequestError\<close> from \<^verbatim>\<open>session.get\<close>, \<open>HTTPError\<close> from \<^verbatim>\<open>raise_for_status\<close>,
  \<open>HeaderError\<close> the ValueError of \<^verbatim>\<open>int\<close> on the header, \<open>OpenError\<close> from \<^verbatim>\<open>open\<close>,
  \<open>ContentError\<close> from the body iterator, \<open>NotCallable\<close> the TypeError of calling the
  default \<^verbatim>\<open>callback=None\<close>, \<open>CallbackError\<close> what the callback raises, \<open>WriteError\<close> from
  \<^verbatim>\<open>fd.write\<close>, and \<open>SizeMismatch\<close> the AssertionError of the final check with the two
  numbers of its message. All of them are subclasses of \<^verbatim>\<open>Exception\<close>.
\<close>

datatype 'e stream_error =
    RequestError string
  | HTTPError int
  | HeaderError string
  | OpenError string
  | ContentError string
  | NotCallable
  | CallbackError 'e
  | WriteError string
  | SizeMismatch int int

type_synonym ('s, 'e) callback = "pyarg \<Rightarrow> int \<Rightarrow> int \<Rightarrow> 's \<Rightarrow> 'e option \<times> 's"

text \<open>
  What a call leaves behind, whether it returns or raises: the adapters mounted on the
  session, the stream object bound to \<^verbatim>\<open>fd\<close> if the call got that far, and the state of
  the callback.
\<close>

record 's world =
  mounts :: "(string \<times> Retry) list"
  fd :: "fd_obj option"
  cb_state :: 's

definition is_space :: "char \<Rightarrow> bool" where
  \<comment> \<open>the characters below 256 that \<^verbatim>\<open>int\<close> strips\<close>
  "is_space c = (let n = (of_char c :: nat)
                 in (9 \<le> n \<and> n \<le> 13) \<or> (28 \<le> n \<and> n \<le> 32) \<or> n = 133 \<or> n = 160)"

definition strip :: "string \<Rightarrow> string" where
  "strip s = rev (dropWhile is_space (rev (dropWhile is_space s)))"

fun digit_group :: "string \<Rightarrow> bool" where
  \<comment> \<open>decimal digits, single underscores allowed between two digits\<close>
  "digit_group [] = False"
| "digit_group [c] = is_digit c"
| "digit_group (c # d # cs) =
     (is_digit c \<and> (if d = CHR ''_'' then digit_group cs else digit_group (d # cs)))"

definition int_of_str :: "string \<Rightarrow> string + int" where
  \<comment> \<open>\<^verbatim>\<open>int(s)\<close> on a string; left: the ValueError, with the rejected text. The
      interpreter's optional limit on the number of digits is not modelled.\<close>
  "int_of_str s =
     (let t = strip s;
          neg = (t \<noteq> [] \<and> hd t = CHR ''-'');
          body = (if t \<noteq> [] \<and> (hd t = CHR ''-'' \<or> hd t = CHR ''+'') then tl t else t)
      in if digit_group body
         then let n = int_of_digits (filter (\<lambda>c. c \<noteq> CHR ''_'') body)
              in Inr (if neg then - n else n)
         else Inl s)"

definition header_total_size :: "response \<Rightarrow> string + int" where
  \<comment> \<open>\<^verbatim>\<open>int(req.headers.get("content-length", 0))\<close>\<close>
  "header_total_size req =
     (case content_length req of None \<Rightarrow> Inr 0 | Some v \<Rightarrow> int_of_str v)"

definition truthy :: "string option \<Rightarrow> bool" where
  \<comment> \<open>\<^verbatim>\<open>if write_to:\<close> is false for None and for the empty string\<close>
  "truthy write_to = (case write_to of None \<Rightarrow> False | Some p \<Rightarrow> p \<noteq> [])"

definition open_fd :: "environment \<Rightarrow> string option \<Rightarrow> string + fd_obj" where
  \<comment> \<open>lines 87-90; opening the empty path raises FileNotFoundError\<close>
  "open_fd env write_to =
     (case write_to of
        None \<Rightarrow> Inr (BytesIO \<lparr>data = [], pos = 0, closed = False\<rparr>)
      | Some p \<Rightarrow>
          if p = [] then Inl ''[Errno 2] No such file or directory''
          else (case fs_open env p of
                  Some msg \<Rightarrow> Inl msg
                | None \<Rightarrow> Inr (File p \<lparr>data = [], pos = 0, closed = False\<rparr>)))"

definition put :: "stream_obj \<Rightarrow> bytes \<Rightarrow> stream_obj" where
  \<comment> \<open>the bytes go in at the position, which moves behind them\<close>
  "put f bs =
     f\<lparr>data := take (pos f) (data f) @ replicate (pos f - length (data f)) (CHR 0x00)
               @ bs @ drop (pos f + length bs) (data f),
       pos := pos f + length bs\<rparr>"

fun fd_write :: "environment \<Rightarrow> fd_obj \<Rightarrow> bytes \<Rightarrow> string + fd_obj" where
  "fd_write env (File p f) bs =
     (case fs_write env (data f) bs of
        Some msg \<Rightarrow> Inl msg
      | None \<Rightarrow> Inr (File p (put f bs)))"
| "fd_write env (BytesIO f) bs = Inr (BytesIO (put f bs))"

fun fd_close :: "fd_obj \<Rightarrow> fd_obj" where
  "fd_close (File p f) = File p (f\<lparr>closed := True\<rparr>)"
| "fd_close (BytesIO f) = BytesIO (f\<lparr>closed := True\<rparr>)"

fun fd_seek0 :: "fd_obj \<Rightarrow> fd_obj" where
  "fd_seek0 (File p f) = File p (f\<lparr>pos := 0\<rparr>)"
| "fd_seek0 (BytesIO f) = BytesIO (f\<lparr>pos := 0\<rparr>)"

text \<open>
  The \<^verbatim>\<open>for\<close> loop of lines 92-96 over the chunks still to come. Its state is the
  callback's state, \<^verbatim>\<open>total_downloaded\<close> and \<^verbatim>\<open>fd\<close>; the result says which exception
  ended it, if one did.
\<close>

fun stream_loop ::
  "string option \<Rightarrow> ('s, 'e) callback option \<Rightarrow> int \<Rightarrow> int \<Rightarrow> environment \<Rightarrow>
   bytes list \<Rightarrow> 's \<times> int \<times> fd_obj \<Rightarrow> 'e stream_error option \<times> 's \<times> int \<times> fd_obj" where
  "stream_loop write_to callback block_size total_size env [] st = (None, st)"
| "stream_loop write_to callback block_size total_size env (chunk # rest) (s, total_downloaded, f) =
     (case callback of
        None \<Rightarrow> (Some NotCallable, s, total_downloaded, f)
      | Some cb \<Rightarrow>
          (case cb (PyBytes chunk) block_size total_size s of
             (Some e, s') \<Rightarrow> (Some (CallbackError e), s', total_downloaded, f)
           | (None, s') \<Rightarrow>
               let total_downloaded' = total_downloaded + int (length chunk)
               in if truthy write_to
                  then (case fd_write env f chunk of
                          Inl msg \<Rightarrow> (Some (WriteError msg), s', total_downloaded', f)
                        | Inr f' \<Rightarrow>
                            stream_loop write_to callback block_size total_size env rest
                              (s', total_downloaded', f'))
                  else stream_loop write_to callback block_size total_size env rest
                         (s', total_downloaded', f)))"

definition retries :: Retry where
  "retries =
     \<lparr>total = FAILURE_RETRIES, connect = FAILURE_RETRIES, read = FAILURE_RETRIES,
      status = 2, redirect = None, backoff_factor = 30,
      status_forcelist = [413, 429, 500, 502, 503, 504]\<rparr>"

text \<open>
  Lines 69-101: everything up to the final check. On success the result is
  \<^verbatim>\<open>total_size\<close>, \<^verbatim>\<open>total_downloaded\<close> and \<^verbatim>\<open>fd\<close>.
\<close>

definition transfer ::
  "string \<Rightarrow> string option \<Rightarrow> ('s, 'e) callback option \<Rightarrow> int \<Rightarrow> environment \<Rightarrow> 's \<Rightarrow>
   ('e stream_error + int \<times> int \<times> fd_obj) \<times> 's world" where
  "transfer url write_to callback block_size env s =
     (let session = [(''http'', retries)];
          w = \<lparr>mounts = session, fd = None, cb_state = s\<rparr>
      in case http_get env session url of
           Inl msg \<Rightarrow> (Inl (RequestError msg), w)
         | Inr req \<Rightarrow>
             if 400 \<le> status_code req \<and> status_code req < 600
             then (Inl (HTTPError (status_code req)), w)
             else (case header_total_size req of
                     Inl v \<Rightarrow> (Inl (HeaderError v), w)
                   | Inr total_size \<Rightarrow>
                       (case open_fd env write_to of
                          Inl msg \<Rightarrow> (Inl (OpenError msg), w)
                        | Inr f \<Rightarrow>
                            (case stream_loop write_to callback block_size total_size env
                                    (fst (iter_content req block_size)) (s, 0, f) of
                               (Some e, s', total_downloaded, f') \<Rightarrow>
                                 (Inl e, w\<lparr>fd := Some f', cb_state := s'\<rparr>)
                             | (None, s', total_downloaded, f') \<Rightarrow>
                                 (case snd (iter_content req block_size) of
                                    Some msg \<Rightarrow>
                                      (Inl (ContentError msg),
                                       w\<lparr>fd := Some f', cb_state := s'\<rparr>)
                                  | None \<Rightarrow>
                                      let f'' = (if truthy write_to then fd_close f'
                                                 else fd_seek0 f')
                                      in (Inr (total_size, total_downloaded, f''),
                                          w\<lparr>fd := Some f'', cb_state := s'\<rparr>))))))"

definition stream ::
  "string \<Rightarrow> string option \<Rightarrow> ('s, 'e) callback option \<Rightarrow> int \<Rightarrow> environment \<Rightarrow> 's \<Rightarrow>
   ('e stream_error + int \<times> dest) \<times> 's world" where
  "stream url write_to callback block_size env s =
     (case transfer url write_to callback block_size env s of
        (Inl e, w) \<Rightarrow> (Inl e, w)
      | (Inr (total_size, total_downloaded, f), w) \<Rightarrow>
          if total_size \<noteq> 0 \<and> total_downloaded \<noteq> total_size
          then (Inl (SizeMismatch total_downloaded total_size), w)
          else (Inr (total_downloaded,
                     if truthy write_to then Path (the write_to) else Handle f), w))"

definition mismatch_message :: "int \<Rightarrow> int \<Rightarrow> string" where
  \<comment> \<open>the text of the AssertionError that \<open>SizeMismatch\<close> stands for\<close>
  "mismatch_message total_downloaded total_size =
     ''Downloaded size is different than expected ('' @ str_int total_downloaded
       @ '' vs '' @ str_int total_size @ '')''"


section \<open>The device capacity prober\<close>

text \<open>
  \<open>platform\<close> is \<^verbatim>\<open>sys.platform\<close>; \<open>run\<close> is \<^verbatim>\<open>subprocess.run(argv, capture_output=True,
  text=True)\<close>: the text of the standard output, or on the left the message of the OSError
  raised when the program cannot be started.
\<close>

record probe_env =
  platform :: string
  run :: "string list \<Rightarrow> string + string"

datatype probe_error = SubprocessError string | IndexError | AttributeError

definition is_linebreak :: "char \<Rightarrow> bool" where
  \<comment> \<open>the line boundaries of \<^verbatim>\<open>str.splitlines\<close> below 256\<close>
  "is_linebreak c = (let n = (of_char c :: nat)
                     in (10 \<le> n \<and> n \<le> 13) \<or> (28 \<le> n \<and> n \<le> 30) \<or> n = 133)"

fun split_acc :: "string \<Rightarrow> string \<Rightarrow> string list" where
  "split_acc cur [] = (if cur = [] then [] else [rev cur])"
| "split_acc cur (c # cs) =
     (if is_linebreak c
      then rev cur # split_acc [] (if c = CR \<and> cs \<noteq> [] \<and> hd cs = LF then tl cs else cs)
      else split_acc (c # cur) cs)"

definition splitlines :: "string \<Rightarrow> string list" where
  "splitlines s = split_acc [] s"

fun search_bytes :: "string \<Rightarrow> string option" where
  \<comment> \<open>group 1 of \<^verbatim>\<open>re.search("([0-9]+) bytes,", line)\<close>, None without a match\<close>
  "search_bytes [] = None"
| "search_bytes (c # cs) =
     (let ds = takeWhile is_digit (c # cs); rest = dropWhile is_digit (c # cs)
      in if ds \<noteq> [] \<and> take 7 rest = '' bytes,'' then Some ds else search_bytes cs)"

definition match_integer :: "string \<Rightarrow> string option" where
  \<comment> \<open>group 1 of \<^verbatim>\<open>re.match(r"\t\t\t<integer>(\d+)</integer>", line)\<close>\<close>
  "match_integer line =
     (if take 12 line = [TAB, TAB, TAB] @ ''<integer>''
      then let ds = takeWhile is_digit (drop 12 line);
               rest = dropWhile is_digit (drop 12 line)
           in if ds \<noteq> [] \<and> take 10 rest = ''</integer>'' then Some ds else None
      else None)"

definition fdisk_bytes :: "string \<Rightarrow> probe_env \<Rightarrow> probe_error + int" where
  \<comment> \<open>the body of the \<^verbatim>\<open>try\<close>, lines 128-132\<close>
  "fdisk_bytes sdcard_path env =
     (case run env [''/sbin/fdisk'', ''-l'', sdcard_path] of
        Inl msg \<Rightarrow> Inl (SubprocessError msg)
      | Inr out \<Rightarrow>
          (case splitlines out of
             [] \<Rightarrow> Inl IndexError
           | line # _ \<Rightarrow>
               (case search_bytes line of
                  None \<Rightarrow> Inl AttributeError
                | Some ds \<Rightarrow> Inr (int_of_digits ds))))"

fun first_integer :: "string list \<Rightarrow> int option" where
  \<comment> \<open>the \<^verbatim>\<open>for\<close> loop of lines 140-143: the value returned, None when the loop ends\<close>
  "first_integer [] = None"
| "first_integer (line # rest) =
     (case match_integer line of
        Some ds \<Rightarrow> Some (int_of_digits ds)
      | None \<Rightarrow> first_integer rest)"

text \<open>
  The result of \<^verbatim>\<open>get_sdcard_bytes\<close> with the exceptions handed to \<^verbatim>\<open>logger.error\<close>.
\<close>

definition get_sdcard_bytes ::
  "string \<Rightarrow> probe_env \<Rightarrow> (probe_error + int) \<times> probe_error list" where
  "get_sdcard_bytes sdcard_path env =
     (case fdisk_bytes sdcard_path env of
        Inr n \<Rightarrow> (Inr n, [])
      | Inl exp' \<Rightarrow>
          if platform env = ''darwin''
          then (case run env [''diskutil'', ''list'', ''-plist'', sdcard_path] of
                  Inl msg \<Rightarrow> (Inl (SubprocessError msg), [exp'])
                | Inr out \<Rightarrow>
                    (case first_integer (splitlines out) of
                       Some n \<Rightarrow> (Inr n, [exp'])
                     | None \<Rightarrow> (Inr 0, [exp'])))
          else (Inr 0, [exp']))"

section \<open>Sample inputs\<close>

text \<open>
  A server that answers 200 with the given header value and body chunks, over a file system
  on which every open and write succeeds; a callback that does nothing; and a callback that
  raises on every call.
\<close>

definition serving :: "string option \<Rightarrow> bytes list \<Rightarrow> environment" where
  "serving header chunks =
     \<lparr>http_get = (\<lambda>session url. Inr \<lparr>status_code = 200, content_length = header,
                                       iter_content = (\<lambda>n. (chunks, None))\<rparr>),
      fs_open = (\<lambda>p. None), fs_write = (\<lambda>old new. None)\<rparr>"

definition quiet :: "(unit, unit) callback" where
  "quiet chunk chunk_size total_size s = (None, s)"

definition failing :: "(unit, unit) callback" where
  "failing chunk chunk_size total_size s = (Some (), s)"

section \<open>Properties of the float operations\<close>


lemma pow2_powi: "pow2 k = 2 powi k"
  by (simp add: pow2_def power_int_def inverse_eq_divide power_one_over)

lemma pow2_pos: "0 < pow2 k"
  by (simp add: pow2_powi)


lemma pow2_mono: "a \<le> b \<Longrightarrow> pow2 a \<le> pow2 b"
  by (simp add: pow2_powi power_int_increasing)

lemma rhe_le: "x \<le> of_int n \<Longrightarrow> round_half_even x \<le> n"
proof -
  assume a: "x \<le> of_int n"
  have f: "\<lfloor>x\<rfloor> \<le> n" using floor_mono [OF a] by simp
  show ?thesis
  proof (cases "\<lfloor>x\<rfloor> = n")
    case True
    then have "x - of_int \<lfloor>x\<rfloor> \<le> 0" using a by simp
    then show ?thesis using True by (simp add: round_half_even_def Let_def)
  next
    case False
    then have "\<lfloor>x\<rfloor> + 1 \<le> n" using f by simp
    then show ?thesis by (auto simp add: round_half_even_def Let_def)
  qed
qed

lemma rhe_ge: "of_int n \<le> x \<Longrightarrow> n \<le> round_half_even x"
proof -
  assume "of_int n \<le> x"
  then have "n \<le> \<lfloor>x\<rfloor>" by (simp add: le_floor_iff)
  then show ?thesis by (auto simp add: round_half_even_def Let_def)
qed

lemma ilog2_bounds:
  assumes "1 \<le> x"
  shows "pow2 (ilog2 x) \<le> x" and "x < pow2 (ilog2 x + 1)" and "0 \<le> ilog2 x"
proof -
  let ?f = "\<lfloor>x\<rfloor>"
  have fpos: "0 < ?f" using assms by simp
  have b: "2 ^ nat (bitlen ?f - 1) \<le> ?f" "?f < 2 ^ nat (bitlen ?f)"
    using bitlen_bounds [OF fpos] by auto
  have b1: "1 \<le> bitlen ?f" using fpos by (simp add: bitlen_ge_iff_power)
  have e: "ilog2 x = bitlen ?f - 1" using assms by (simp add: ilog2_def)
  show "0 \<le> ilog2 x" using b1 e by simp
  have "pow2 (ilog2 x) = of_int (2 ^ nat (bitlen ?f - 1))"
    using b1 e by (simp add: pow2_def)
  also have "\<dots> \<le> of_int ?f" using b(1) by (simp only: of_int_le_iff)
  also have "\<dots> \<le> x" by simp
  finally show "pow2 (ilog2 x) \<le> x" .
  have "?f + 1 \<le> 2 ^ nat (bitlen ?f)" using b(2) by simp
  then have "(of_int (?f + 1) :: rat) \<le> of_int (2 ^ nat (bitlen ?f))"
    by (simp only: of_int_le_iff)
  moreover have "x < of_int (?f + 1)" by simp linarith
  moreover have "pow2 (ilog2 x + 1) = of_int (2 ^ nat (bitlen ?f))"
    using b1 e by (simp add: pow2_def)
  ultimately show "x < pow2 (ilog2 x + 1)" by simp
qed

lemma ilog2_small: "x < 1 \<Longrightarrow> ilog2 x \<le> 0"
  by (simp add: ilog2_def bitlen_nonneg)



lemma scale_int:
  assumes "q \<le> 0"
  shows "of_int k / pow2 q = of_int (k * 2 ^ nat (- q))"
  using assms by (simp add: pow2_def)

lemma exp_small:
  assumes "0 < x" "x < pow2 53"
  shows "max (ilog2 x) (- 1022) - 52 \<le> 0"
proof (cases "1 \<le> x")
  case True
  have "pow2 (ilog2 x) < pow2 53"
    using ilog2_bounds(1) [OF True] assms(2) by simp
  then have "ilog2 x < 53"
    using pow2_mono [of 53 "ilog2 x"] by (cases "ilog2 x < 53") auto
  then show ?thesis by simp
next
  case False
  then show ?thesis using ilog2_small [of x] by simp
qed

lemma nearest_double_le_int:
  assumes "0 \<le> x" "x \<le> of_int k" "of_int k < pow2 53"
  shows "nearest_double x \<le> of_int k"
proof (cases "x = 0")
  case True
  then show ?thesis using assms by (simp add: nearest_double_def)
next
  case False
  define q where "q = max (ilog2 x) (- 1022) - 52"
  have q: "q \<le> 0" unfolding q_def using exp_small [of x] assms False by simp
  have "x / pow2 q \<le> of_int k / pow2 q"
    using assms(2) pow2_pos [of q] by (simp add: divide_right_mono less_imp_le)
  then have "round_half_even (x / pow2 q) \<le> k * 2 ^ nat (- q)"
    using scale_int [OF q, of k] rhe_le by simp
  then have "(of_int (round_half_even (x / pow2 q)) :: rat) \<le> of_int (k * 2 ^ nat (- q))"
    by (simp only: of_int_le_iff)
  then have "of_int (round_half_even (x / pow2 q)) \<le> of_int k / pow2 q"
    using scale_int [OF q, of k] by simp
  then have "of_int (round_half_even (x / pow2 q)) * pow2 q \<le> of_int k"
    using pow2_pos [of q] by (simp add: pos_le_divide_eq)
  then show ?thesis using False by (simp add: nearest_double_def Let_def q_def)
qed

lemma nearest_double_ge_int:
  assumes "of_int k \<le> x" "0 < x" "x < pow2 53"
  shows "of_int k \<le> nearest_double x"
proof -
  define q where "q = max (ilog2 x) (- 1022) - 52"
  have q: "q \<le> 0" unfolding q_def using exp_small [of x] assms by simp
  have "of_int k / pow2 q \<le> x / pow2 q"
    using assms(1) pow2_pos [of q] by (simp add: divide_right_mono less_imp_le)
  then have "k * 2 ^ nat (- q) \<le> round_half_even (x / pow2 q)"
    using scale_int [OF q, of k] rhe_ge by simp
  then have "(of_int (k * 2 ^ nat (- q)) :: rat) \<le> of_int (round_half_even (x / pow2 q))"
    by (simp only: of_int_le_iff)
  then have "of_int k / pow2 q \<le> of_int (round_half_even (x / pow2 q))"
    using scale_int [OF q, of k] by simp
  then have "of_int k \<le> of_int (round_half_even (x / pow2 q)) * pow2 q"
    using pow2_pos [of q] by (simp add: pos_divide_le_eq)
  then show ?thesis using assms(2) by (simp add: nearest_double_def Let_def q_def)
qed

lemma nearest_double_int:
  assumes "0 \<le> k" "k < 2 ^ 53"
  shows "nearest_double (of_int k) = of_int k"
proof (cases "k = 0")
  case True
  then show ?thesis by (simp add: nearest_double_def)
next
  case False
  have lt: "(of_int k :: rat) < pow2 53"
  proof -
    have "(of_int k :: rat) < of_int (2 ^ 53)" using assms(2) by (simp only: of_int_less_iff)
    then show ?thesis by (simp add: pow2_def)
  qed
  have "nearest_double (of_int k) \<le> of_int k"
    by (rule nearest_double_le_int) (use assms lt in simp_all)
  moreover have "of_int k \<le> nearest_double (of_int k)"
    by (rule nearest_double_ge_int) (use assms False lt in simp_all)
  ultimately show ?thesis by simp
qed



lemma pow2_53_le_1024: "pow2 53 \<le> pow2 1024"
  by (rule pow2_mono) simp

lemma round_double_int:
  assumes "0 \<le> k" "k < 2 ^ 53"
  shows "round_double (of_int k) = Finite (of_int k)"
proof -
  have "(of_int k :: rat) < of_int (2 ^ 53)" using assms(2) by (simp only: of_int_less_iff)
  then have "(of_int k :: rat) < pow2 53" by (simp add: pow2_def)
  then have "\<not> pow2 1024 \<le> (of_int k :: rat)" using pow2_53_le_1024 by simp
  then show ?thesis
    using assms nearest_double_int [OF assms] by (simp add: round_double_def Let_def)
qed

lemma py_float_int:
  assumes "0 \<le> k" "k < 2 ^ 53"
  shows "py_float k = Inr (Finite (of_int k))"
  using round_double_int [OF assms] by (simp add: py_float_def)

lemma py_float_numeral [simp]:
  "py_float 0 = Inr (Finite 0)"
  "py_float 58 = Inr (Finite 58)"
  "py_float 100 = Inr (Finite 100)"
  using py_float_int [of 0] py_float_int [of 58] py_float_int [of 100] by simp_all

lemma round_double_0 [simp]: "round_double 0 = Finite 0"
  using round_double_int [of 0] by simp

lemma str_int_small [simp]: "str_int 0 = ''0''" "str_int 100 = ''100''"
  by (simp_all add: str_int_def)

lemma ReportHook_value:
  "ReportHook =
     (None, \<lparr>current_size = 0, width = 60, last_line = Some (bar 58 0 0 @ [CR]),
             printed = [bar 58 0 0 @ [CR]]\<rparr>)"
  by (simp add: ReportHook_def reporthook_def hook_line_def hook_ratio_def and_then_def
      py_truediv_def py_mul_def py_min_def py_int_def bar_def Let_def)

section \<open>The fetcher, the wrapper and the prober\<close>




text \<open>
  C1: without a destination the chunks should end up in the buffer that is returned. On a
  successful download of the three bytes \<^verbatim>\<open>abc\<close> the call returns the count 3 and a buffer
  that is rewound but empty: the loop writes only under \<^verbatim>\<open>if write_to:\<close>.
\<close>

theorem stream_buffer_left_empty:
  "fst (stream ''http://host/f'' None (Some quiet) 1024 (serving (Some ''3'') [''abc'']) ())
   = Inr (3, Handle (BytesIO \<lparr>data = [], pos = 0, closed = False\<rparr>))"
  by (simp add: serving_def quiet_def stream_def transfer_def Let_def header_total_size_def int_of_str_def strip_def
      is_space_def is_digit_def int_of_digits_def digit_val_def open_fd_def truthy_def)

text \<open>
  Where the prober does return: off \<^verbatim>\<open>darwin\<close> always, with 0 when the first strategy
  fails; on \<^verbatim>\<open>darwin\<close> when \<^verbatim>\<open>diskutil\<close> could be started.
\<close>

lemma get_sdcard_bytes_elsewhere:
  assumes "platform env \<noteq> ''darwin''"
  shows "fst (get_sdcard_bytes sdcard_path env)
         = Inr (case fdisk_bytes sdcard_path env of Inr n \<Rightarrow> n | Inl e \<Rightarrow> 0)"
  using assms by (simp add: get_sdcard_bytes_def split: sum.splits)

lemma get_sdcard_bytes_darwin:
  assumes "platform env = ''darwin''" "fdisk_bytes sdcard_path env = Inl e"
    and "run env [''diskutil'', ''list'', ''-plist'', sdcard_path] = Inr out"
  shows "fst (get_sdcard_bytes sdcard_path env)
         = Inr (case first_integer (splitlines out) of Some n \<Rightarrow> n | None \<Rightarrow> 0)"
  using assms by (simp add: get_sdcard_bytes_def split: option.splits)

lemma fdisk_sample:
  "fdisk_bytes ''/dev/sdb''
     \<lparr>platform = ''linux'',
      run = (\<lambda>argv. Inr (''Disk /dev/sdb: 14.9 GiB, 16000000 bytes, 31250 sectors'' @ [LF]
                           @ ''Units: sectors''))\<rparr>
   = Inr 16000000"
  by (simp add: fdisk_bytes_def splitlines_def is_linebreak_def LF_def CR_def is_digit_def
      int_of_digits_def digit_val_def)

text \<open>
  C4: the prober should absorb every failure of either strategy. On \<^verbatim>\<open>darwin\<close>, when
  neither \<^verbatim>\<open>/sbin/fdisk\<close> nor \<^verbatim>\<open>diskutil\<close> can be started, the first failure is logged and the
  second one leaves the function: the second \<^verbatim>\<open>subprocess.run\<close> is outside the \<^verbatim>\<open>try\<close>.
\<close>

theorem get_sdcard_bytes_raises_on_darwin:
  "fst (get_sdcard_bytes ''/dev/disk2''
      \<lparr>platform = ''darwin'',
       run = (\<lambda>argv. Inl ''[Errno 2] No such file or directory'')\<rparr>)
   = Inl (SubprocessError ''[Errno 2] No such file or directory'')"
  by (simp add: get_sdcard_bytes_def fdisk_bytes_def)


section \<open>The counter of the reporter\<close>

lemma reporthook_counter:
  "current_size (snd (reporthook chunk chunk_size total_size self)) =
     (if chunk = PyInt 0 then current_size self else current_size self + chunk_size)"
  by (simp add: reporthook_def Let_def split: sum.splits)

lemma reporthook_width [simp]:
  "width (snd (reporthook chunk chunk_size total_size self)) = width self"
  by (simp add: reporthook_def Let_def split: sum.splits)

lemma run_calls_mono:
  "\<forall>c \<in> set calls. 0 \<le> fst (snd c) \<Longrightarrow> current_size self \<le> current_size (run_calls calls self)"
proof (induction calls arbitrary: self)
  case Nil
  then show ?case by simp
next
  case (Cons c calls)
  obtain chunk n t where c: "c = (chunk, n, t)" by (cases c) auto
  have "current_size self \<le> current_size (snd (reporthook chunk n t self))"
    using Cons.prems c by (simp add: reporthook_counter)
  moreover have "current_size (snd (reporthook chunk n t self))
      \<le> current_size (run_calls calls (snd (reporthook chunk n t self)))"
    using Cons.prems by (intro Cons.IH) simp
  ultimately show ?case using c by simp
qed

text \<open>
  C9: a call of \<^verbatim>\<open>reporthook\<close> adds \<open>chunk_size\<close> to the counter exactly when its chunk
  argument is not the integer 0, as for every bytes object, and leaves it unchanged
  otherwise; so over any sequence of calls with non-negative chunk sizes the counter never
  decreases, neither from the start nor from any point of the sequence to a later one.
\<close>

theorem counter_monotone:
  "current_size (snd (reporthook chunk chunk_size total_size self)) =
     (if chunk = PyInt 0 then current_size self else current_size self + chunk_size)
   \<and> current_size (snd (reporthook (PyBytes b) chunk_size total_size self)) =
       current_size self + chunk_size
   \<and> ((\<forall>c \<in> set calls. 0 \<le> fst (snd c)) \<longrightarrow>
        current_size self \<le> current_size (run_calls calls self))
   \<and> ((\<forall>c \<in> set (calls @ later). 0 \<le> fst (snd c)) \<longrightarrow>
        current_size (run_calls calls self) \<le> current_size (run_calls (calls @ later) self))"
proof -
  have app: "run_calls (xs @ ys) h = run_calls ys (run_calls xs h)" for xs ys h
    by (induction xs arbitrary: h) auto
  show ?thesis
    using run_calls_mono [of calls self] run_calls_mono [of later "run_calls calls self"]
    by (auto simp add: reporthook_counter app)
qed

theorem counter_monotone_witness:
  "current_size (snd (reporthook (PyBytes []) 1024 5000 (snd ReportHook))) = 1024
   \<and> current_size (snd (reporthook (PyInt 0) 1024 5000 (snd ReportHook))) = 0
   \<and> 0 \<le> current_size
         (run_calls [(PyBytes ''ab'', 1024, 5000), (PyBytes [], 1024, 5000)] (snd ReportHook))"
  using counter_monotone [of "PyBytes []" 1024 5000 "snd ReportHook" "[]"
      "[(PyBytes ''ab'', 1024, 5000), (PyBytes [], 1024, 5000)]" "[]"]
    counter_monotone [of "PyInt 0" 1024 5000 "snd ReportHook" "[]" "[]" "[]"]
  by (simp add: ReportHook_value)

section \<open>The transfer loop and the final check\<close>

lemma fd_write_File:
  "fd_write env (File p g) bs = Inr f' \<Longrightarrow> \<exists>g'. f' = File p g' \<and> closed g' = closed g"
  by (auto simp add: put_def split: option.splits)

lemma loop_sum:
  "stream_loop write_to callback block_size total_size env chunks (s, d, f) = (None, s', d', f')
   \<Longrightarrow> d' = d + (\<Sum>chunk\<leftarrow>chunks. int (length chunk))"
proof (induction chunks arbitrary: s d f callback)
  case Nil
  then show ?case by simp
next
  case (Cons chunk rest)
  from Cons.prems show ?case
    by (auto simp add: Let_def split: option.splits prod.splits sum.splits if_splits
        dest: Cons.IH)
qed

lemma loop_file:
  "stream_loop write_to callback block_size total_size env chunks (s, d, File p g) = (r, s', d', f')
   \<Longrightarrow> \<exists>g'. f' = File p g' \<and> closed g' = closed g"
proof (induction chunks arbitrary: s d g)
  case Nil
  then show ?case by auto
next
  case (Cons chunk rest)
  show ?case
  proof (cases callback)
    case None
    then show ?thesis using Cons.prems by auto
  next
    case (Some cb)
    obtain e s1 where cb: "cb (PyBytes chunk) block_size total_size s = (e, s1)"
      by (cases "cb (PyBytes chunk) block_size total_size s") auto
    show ?thesis
    proof (cases e)
      case (Some x)
      then show ?thesis using Cons.prems \<open>callback = Some cb\<close> cb by auto
    next
      case None
      show ?thesis
      proof (cases "truthy write_to")
        case False
        then show ?thesis
          using Cons.prems \<open>callback = Some cb\<close> cb None Cons.IH by (auto simp add: Let_def)
      next
        case True
        show ?thesis
        proof (cases "fd_write env (File p g) chunk")
          case (Inl msg)
          then show ?thesis
            using Cons.prems \<open>callback = Some cb\<close> cb None True
            by (auto simp add: Let_def split: option.splits)
        next
          case (Inr f1)
          then obtain g1 where g1: "f1 = File p g1" "closed g1 = closed g"
            using fd_write_File by blast
          have "stream_loop write_to callback block_size total_size env rest
                  (s1, d + int (length chunk), File p g1) = (r, s', d', f')"
            using Cons.prems \<open>callback = Some cb\<close> cb None True Inr g1
            by (simp add: Let_def split: option.splits)
          then show ?thesis using Cons.IH g1 by metis
        qed
      qed
    qed
  qed
qed

lemma loop_untouched:
  "\<not> truthy write_to \<Longrightarrow>
   stream_loop write_to callback block_size total_size env chunks (s, d, f) = (r, s', d', f')
   \<Longrightarrow> f' = f"
proof (induction chunks arbitrary: s d callback)
  case Nil
  then show ?case by simp
next
  case (Cons chunk rest)
  from Cons.prems show ?case
    by (auto simp add: Let_def split: option.splits prod.splits dest: Cons.IH)
qed

lemma loop_errors:
  "stream_loop write_to callback block_size total_size env chunks (s, d, f) = (Some e, s', d', f')
   \<Longrightarrow> e = NotCallable \<or> (\<exists>x. e = CallbackError x) \<or> (\<exists>m. e = WriteError m)"
proof (induction chunks arbitrary: s d f callback)
  case Nil
  then show ?case by simp
next
  case (Cons chunk rest)
  from Cons.prems show ?case
    by (auto simp add: Let_def split: option.splits prod.splits sum.splits if_splits
        dest: Cons.IH)
qed

lemma transfer_cases:
  obtains
    (at_get) msg where "http_get env [(''http'', retries)] url = Inl msg"
      "transfer url write_to callback block_size env s
         = (Inl (RequestError msg), \<lparr>mounts = [(''http'', retries)], fd = None, cb_state = s\<rparr>)"
  | (at_status) req where "http_get env [(''http'', retries)] url = Inr req"
      "400 \<le> status_code req \<and> status_code req < 600"
      "transfer url write_to callback block_size env s
         = (Inl (HTTPError (status_code req)),
            \<lparr>mounts = [(''http'', retries)], fd = None, cb_state = s\<rparr>)"
  | (at_header) req v where "http_get env [(''http'', retries)] url = Inr req"
      "header_total_size req = Inl v"
      "transfer url write_to callback block_size env s
         = (Inl (HeaderError v), \<lparr>mounts = [(''http'', retries)], fd = None, cb_state = s\<rparr>)"
  | (at_open) req t msg where "http_get env [(''http'', retries)] url = Inr req"
      "header_total_size req = Inr t" "open_fd env write_to = Inl msg"
      "transfer url write_to callback block_size env s
         = (Inl (OpenError msg), \<lparr>mounts = [(''http'', retries)], fd = None, cb_state = s\<rparr>)"
  | (in_loop) req t f e s' d f' where "http_get env [(''http'', retries)] url = Inr req"
      "header_total_size req = Inr t" "open_fd env write_to = Inr f"
      "stream_loop write_to callback block_size t env (fst (iter_content req block_size)) (s, 0, f)
         = (Some e, s', d, f')"
      "transfer url write_to callback block_size env s
         = (Inl e, \<lparr>mounts = [(''http'', retries)], fd = Some f', cb_state = s'\<rparr>)"
  | (in_body) req t f s' d f' msg where "http_get env [(''http'', retries)] url = Inr req"
      "header_total_size req = Inr t" "open_fd env write_to = Inr f"
      "stream_loop write_to callback block_size t env (fst (iter_content req block_size)) (s, 0, f)
         = (None, s', d, f')"
      "snd (iter_content req block_size) = Some msg"
      "transfer url write_to callback block_size env s
         = (Inl (ContentError msg), \<lparr>mounts = [(''http'', retries)], fd = Some f', cb_state = s'\<rparr>)"
  | (complete) req t f s' d f' where "http_get env [(''http'', retries)] url = Inr req"
      "header_total_size req = Inr t" "open_fd env write_to = Inr f"
      "stream_loop write_to callback block_size t env (fst (iter_content req block_size)) (s, 0, f)
         = (None, s', d, f')"
      "snd (iter_content req block_size) = None"
      "transfer url write_to callback block_size env s
         = (Inr (t, d, if truthy write_to then fd_close f' else fd_seek0 f'),
            \<lparr>mounts = [(''http'', retries)],
             fd = Some (if truthy write_to then fd_close f' else fd_seek0 f'), cb_state = s'\<rparr>)"
proof (cases "http_get env [(''http'', retries)] url")
  case (Inl msg)
  then show ?thesis by (intro at_get [of msg]) (simp_all add: transfer_def Let_def)
next
  case (Inr req)
  note req = this
  show ?thesis
  proof (cases "400 \<le> status_code req \<and> status_code req < 600")
    case True
    then show ?thesis using req by (intro at_status [of req]) (simp_all add: transfer_def Let_def)
  next
    case False
    note ok = this
    show ?thesis
    proof (cases "header_total_size req")
      case (Inl v)
      then show ?thesis using req ok
        by (intro at_header [of req v]) (simp_all add: transfer_def Let_def)
    next
      case (Inr t)
      note t = this
      show ?thesis
      proof (cases "open_fd env write_to")
        case (Inl msg)
        then show ?thesis using req ok t
          by (intro at_open [of req t msg]) (simp_all add: transfer_def Let_def)
      next
        case (Inr f)
        note f = this
        obtain r s' d f' where l:
          "stream_loop write_to callback block_size t env (fst (iter_content req block_size)) (s, 0, f)
             = (r, s', d, f')"
          by (metis prod_cases4)
        show ?thesis
        proof (cases r)
          case (Some e)
          then show ?thesis using req ok t f l
            by (intro in_loop [of req t f e s' d f']) (simp_all add: transfer_def Let_def)
        next
          case None
          note r = this
          show ?thesis
          proof (cases "snd (iter_content req block_size)")
            case (Some msg)
            then show ?thesis using req ok t f l r
              by (intro in_body [of req t f s' d f' msg]) (simp_all add: transfer_def Let_def)
          next
            case None
            then show ?thesis using req ok t f l r
              by (intro complete [of req t f s' d f']) (simp_all add: transfer_def Let_def)
          qed
        qed
      qed
    qed
  qed
qed

lemma open_fd_Some:
  "open_fd env (Some p) = Inr f \<Longrightarrow>
   f = File p \<lparr>data = [], pos = 0, closed = False\<rparr> \<and> truthy (Some p)"
  by (auto simp add: open_fd_def truthy_def split: if_splits option.splits)

lemma header_absent: "content_length req = None \<Longrightarrow> header_total_size req = Inr 0"
  by (simp add: header_total_size_def)

text \<open>
  C2: \<^verbatim>\<open>stream\<close> raises the size-mismatch error exactly when the call gets through the whole
  body and the declared total is not 0 and differs from the number of bytes received. When
  the call gets through the body, the declared total is the integer value of the
  \<^verbatim>\<open>content-length\<close> header (0 when the header is absent) and the number received is the sum
  of the chunk lengths; and when the declared total is 0, or equals the number received,
  \<^verbatim>\<open>stream\<close> returns that number with the destination.
\<close>

theorem stream_size_check:
  "(fst (stream url write_to callback block_size env s) = Inl (SizeMismatch d t)
      \<longleftrightarrow> t \<noteq> 0 \<and> d \<noteq> t
          \<and> (\<exists>f. fst (transfer url write_to callback block_size env s) = Inr (t, d, f)))
   \<and> (fst (transfer url write_to callback block_size env s) = Inr (t, d, f) \<longrightarrow>
        (\<exists>req. http_get env [(''http'', retries)] url = Inr req
           \<and> header_total_size req = Inr t
           \<and> (content_length req = None \<longrightarrow> t = 0)
           \<and> d = (\<Sum>chunk\<leftarrow>fst (iter_content req block_size). int (length chunk)))
        \<and> (t = 0 \<or> d = t \<longrightarrow>
             fst (stream url write_to callback block_size env s)
               = Inr (d, if truthy write_to then Path (the write_to) else Handle f)))"
proof (cases rule: transfer_cases [of env url write_to callback block_size s])
  case (at_get msg)
  then show ?thesis by (simp add: stream_def)
next
  case (at_status req)
  then show ?thesis by (simp add: stream_def)
next
  case (at_header req v)
  then show ?thesis by (simp add: stream_def)
next
  case (at_open req t msg)
  then show ?thesis by (simp add: stream_def)
next
  case (in_loop req t0 f0 e s' d0 f')
  have "e \<noteq> SizeMismatch d t" using loop_errors [OF in_loop(4)] by auto
  then show ?thesis using in_loop(5) by (simp add: stream_def)
next
  case (in_body req t0 f0 s' d0 f' msg)
  then show ?thesis by (simp add: stream_def)
next
  case (complete req t0 f0 s' d0 f')
  have d0: "d0 = (\<Sum>chunk\<leftarrow>fst (iter_content req block_size). int (length chunk))"
    using loop_sum [OF complete(4)] by simp
  show ?thesis
    using complete(1,2,6) d0 header_absent [of req]
    by (auto simp add: stream_def)
qed

text \<open>
  C5, as amended: when \<^verbatim>\<open>stream\<close> is given a file destination and either returns or raises
  the size-mismatch error, the file it opened has been closed before the outcome reaches the
  caller.
\<close>

theorem stream_closes_on_return:
  assumes "write_to = Some p"
    and "fst (stream url write_to callback block_size env s) = Inr (n, dst)
         \<or> fst (stream url write_to callback block_size env s) = Inl (SizeMismatch d t)"
  shows "\<exists>g. fd (snd (stream url write_to callback block_size env s)) = Some (File p g)
             \<and> closed g"
proof (cases rule: transfer_cases [of env url write_to callback block_size s])
  case (at_get msg)
  then show ?thesis using assms(2) by (simp add: stream_def)
next
  case (at_status req)
  then show ?thesis using assms(2) by (simp add: stream_def)
next
  case (at_header req v)
  then show ?thesis using assms(2) by (simp add: stream_def)
next
  case (at_open req t msg)
  then show ?thesis using assms(2) by (simp add: stream_def)
next
  case (in_loop req t0 f0 e s' d0 f')
  have "e \<noteq> SizeMismatch d t" using loop_errors [OF in_loop(4)] by auto
  then show ?thesis using in_loop(5) assms(2) by (simp add: stream_def)
next
  case (in_body req t0 f0 s' d0 f' msg)
  then show ?thesis using assms(2) by (simp add: stream_def)
next
  case (complete req t0 f0 s' d0 f')
  have f0: "f0 = File p \<lparr>data = [], pos = 0, closed = False\<rparr>" and tr: "truthy write_to"
    using open_fd_Some [of env p f0] complete(3) assms(1) by simp_all
  obtain g where g: "f' = File p g"
    using loop_file [of write_to callback block_size t0 env _ s 0 p _ None s' d0 f']
      complete(4) f0 by blast
  show ?thesis
    using complete(6) tr g by (simp add: stream_def split: if_splits)
qed

text \<open>
  The claim C5 as stated also covers an exception raised while streaming. With a callback
  that raises on the first chunk, the call ends with the file open.
\<close>

theorem stream_leaves_file_open:
  "fst (stream ''http://host/f'' (Some ''/tmp/f'') (Some failing) 1024
          (serving (Some ''3'') [''abc'']) ()) = Inl (CallbackError ())
   \<and> fd (snd (stream ''http://host/f'' (Some ''/tmp/f'') (Some failing) 1024
          (serving (Some ''3'') [''abc'']) ()))
       = Some (File ''/tmp/f'' \<lparr>data = [], pos = 0, closed = False\<rparr>)"
  by (simp add: serving_def failing_def stream_def transfer_def Let_def header_total_size_def
      int_of_str_def strip_def is_space_def is_digit_def int_of_digits_def digit_val_def
      open_fd_def truthy_def)

lemma transfer_sample:
  "transfer ''http://host/f'' (Some ''/tmp/f'') (Some quiet) 1024 (serving (Some h) [''abc'']) ()
   = (case int_of_str h of
        Inl v \<Rightarrow> (Inl (HeaderError v), \<lparr>mounts = [(''http'', retries)], fd = None, cb_state = ()\<rparr>)
      | Inr t \<Rightarrow> (Inr (t, 3, File ''/tmp/f'' \<lparr>data = ''abc'', pos = 3, closed = True\<rparr>),
                  \<lparr>mounts = [(''http'', retries)],
                   fd = Some (File ''/tmp/f'' \<lparr>data = ''abc'', pos = 3, closed = True\<rparr>),
                   cb_state = ()\<rparr>))"
  by (simp add: serving_def quiet_def transfer_def Let_def header_total_size_def
      open_fd_def truthy_def put_def split: sum.splits)

lemma int_of_str_samples: "int_of_str ''3'' = Inr 3" "int_of_str ''5'' = Inr 5"
  by (simp_all add: int_of_str_def strip_def is_space_def is_digit_def int_of_digits_def
      digit_val_def)

theorem stream_size_check_witness:
  "fst (stream ''http://host/f'' (Some ''/tmp/f'') (Some quiet) 1024
          (serving (Some ''5'') [''abc'']) ()) = Inl (SizeMismatch 3 5)
   \<and> fst (stream ''http://host/f'' (Some ''/tmp/f'') (Some quiet) 1024
          (serving (Some ''3'') [''abc'']) ()) = Inr (3, Path ''/tmp/f'')"
  using stream_size_check [of "''http://host/f''" "Some ''/tmp/f''" "Some quiet" 1024
      "serving (Some ''5'') [''abc'']" "()" 3 5]
    stream_size_check [of "''http://host/f''" "Some ''/tmp/f''" "Some quiet" 1024
      "serving (Some ''3'') [''abc'']" "()" 3 3
      "File ''/tmp/f'' \<lparr>data = ''abc'', pos = 3, closed = True\<rparr>"]
  by (simp add: transfer_sample int_of_str_samples truthy_def)

theorem stream_closes_on_return_witness:
  "fd (snd (stream ''http://host/f'' (Some ''/tmp/f'') (Some quiet) 1024
          (serving (Some ''5'') [''abc'']) ()))
     = Some (File ''/tmp/f'' \<lparr>data = ''abc'', pos = 3, closed = True\<rparr>)"
proof -
  have r: "stream ''http://host/f'' (Some ''/tmp/f'') (Some quiet) 1024
          (serving (Some ''5'') [''abc'']) ()
     = (Inl (SizeMismatch 3 5), \<lparr>mounts = [(''http'', retries)],
          fd = Some (File ''/tmp/f'' \<lparr>data = ''abc'', pos = 3, closed = True\<rparr>),
          cb_state = ()\<rparr>)"
    by (simp add: stream_def transfer_sample int_of_str_samples)
  then have "fst (stream ''http://host/f'' (Some ''/tmp/f'') (Some quiet) 1024
          (serving (Some ''5'') [''abc'']) ()) = Inl (SizeMismatch 3 5)" by simp
  from stream_closes_on_return [OF refl disjI2, OF this] r show ?thesis by simp
qed

text \<open>
  For every successful call without a destination the returned buffer is empty, whatever
  was downloaded.
\<close>

lemma stream_buffer_never_written:
  assumes "fst (stream url None callback block_size env s) = Inr (n, dst)"
  shows "dst = Handle (BytesIO \<lparr>data = [], pos = 0, closed = False\<rparr>)"
proof (cases rule: transfer_cases [of env url None callback block_size s])
  case (at_get msg)
  then show ?thesis using assms by (simp add: stream_def)
next
  case (at_status req)
  then show ?thesis using assms by (simp add: stream_def)
next
  case (at_header req v)
  then show ?thesis using assms by (simp add: stream_def)
next
  case (at_open req t msg)
  then show ?thesis using assms by (simp add: stream_def)
next
  case (in_loop req t0 f0 e s' d0 f')
  then show ?thesis using assms by (simp add: stream_def)
next
  case (in_body req t0 f0 s' d0 f' msg)
  then show ?thesis using assms by (simp add: stream_def)
next
  case (complete req t0 f0 s' d0 f')
  have f0: "f0 = BytesIO \<lparr>data = [], pos = 0, closed = False\<rparr>"
    using complete(3) by (simp add: open_fd_def)
  have "f' = f0"
    using loop_untouched [OF _ complete(4)] by (simp add: truthy_def)
  then show ?thesis
    using complete(6) assms f0 by (simp add: stream_def truthy_def split: if_splits)
qed


text \<open>
  With the reporter as the callback, every chunk of the loop is a call with a bytes object
  and the block size: the counter never falls when the block size is not negative, and a
  loop that ends without an exception has raised it by the block size once per chunk.
\<close>

lemma loop_step:
  assumes "stream_loop write_to (Some reporthook) block_size total_size env (chunk # rest) (h, d, f)
             = (r, h', d', f')"
  shows "(\<exists>d1 f1. stream_loop write_to (Some reporthook) block_size total_size env rest
             (snd (reporthook (PyBytes chunk) block_size total_size h), d1, f1) = (r, h', d', f'))
         \<or> r \<noteq> None \<and> h' = snd (reporthook (PyBytes chunk) block_size total_size h)"
proof -
  obtain e1 h1 where rh: "reporthook (PyBytes chunk) block_size total_size h = (e1, h1)"
    by (cases "reporthook (PyBytes chunk) block_size total_size h") auto
  show ?thesis
    using assms by (auto simp add: rh Let_def split: if_splits sum.splits option.splits)
qed

lemma loop_counter:
  assumes "stream_loop write_to (Some reporthook) block_size total_size env chunks (h, d, f)
             = (r, h', d', f')"
  shows "(0 \<le> block_size \<longrightarrow> current_size h \<le> current_size h')
         \<and> (r = None \<longrightarrow> current_size h' = current_size h + block_size * int (length chunks))"
  using assms
proof (induction chunks arbitrary: h d f)
  case Nil
  then show ?case by simp
next
  case (Cons chunk rest)
  let ?h1 = "snd (reporthook (PyBytes chunk) block_size total_size h)"
  have c: "current_size ?h1 = current_size h + block_size"
    by (simp add: reporthook_counter)
  from loop_step [OF Cons.prems] show ?case
  proof
    assume "\<exists>d1 f1. stream_loop write_to (Some reporthook) block_size total_size env rest
             (?h1, d1, f1) = (r, h', d', f')"
    then obtain d1 f1 where "stream_loop write_to (Some reporthook) block_size total_size env rest
             (?h1, d1, f1) = (r, h', d', f')" by blast
    from Cons.IH [OF this] show ?thesis using c by (auto simp add: algebra_simps)
  next
    assume "r \<noteq> None \<and> h' = ?h1"
    then show ?thesis using c by auto
  qed
qed

section \<open>The float operations of the reporter\<close>















lemma bitlen_numeral: "bitlen (numeral n) = bitlen (numeral n div 2) + 1"
  by (subst compute_bitlen) simp

lemma bitlen_1: "bitlen 1 = 1"
  by (subst compute_bitlen) simp

lemma floor_rat_numeral_div: "\<lfloor>numeral a / numeral b :: rat\<rfloor> = numeral a div numeral b"
  by (metis floor_divide_of_int_eq of_int_numeral)

lemma ceiling_rat_numeral_div:
  "\<lceil>numeral a / numeral b :: rat\<rceil> = - (- numeral a div numeral b)"
  by (metis ceiling_def floor_divide_of_int_eq minus_divide_left of_int_minus of_int_numeral)

lemmas float_eval = round_double_def nearest_double_def ilog2_def pow2_def round_half_even_def
  Let_def bitlen_numeral bitlen_1 floor_rat_numeral_div ceiling_rat_numeral_div






text \<open>
  The arithmetic is that of doubles, not of the rationals: at 29 bytes of 100 the quotient is
  the double nearest to 0.29, its product with 100 is a double just below 29, and the bar
  shows 28%.
\<close>

lemma percent_29: "hook_line \<lparr>current_size = 29, width = 60, last_line = None, printed = []\<rparr> 100
  = Inr (''['' @ replicate 16 CHR ''.'' @ replicate 42 CHR '' '' @ ''] 28%'' @ [CR])"
  using py_float_int [of 29]
  by (simp add: hook_line_def hook_ratio_def and_then_def py_truediv_def py_min_def py_mul_def
      py_int_def repeat_def str_int_def float_eval)

section \<open>The rendering rule\<close>


lemma hook_line_full:
  "t \<noteq> - 1 \<Longrightarrow> t \<le> current_size h \<Longrightarrow> hook_line h t = Inr (full_bar (width h - 2))"
  by (simp add: hook_line_def full_bar_def bar_def repeat_def)


lemma empty_bar: "partial_bar 58 0 = ''['' @ replicate 58 CHR '' '' @ ''] 0%'' @ [CR]"
  by (simp add: partial_bar_def bar_def repeat_def nearest_double_def)





lemma reporthook_result:
  "reporthook chunk chunk_size t h =
     (let h' = (if chunk \<noteq> PyInt 0 then h\<lparr>current_size := current_size h + chunk_size\<rparr> else h)
      in case hook_line h' t of
           Inl e \<Rightarrow> (Some e, h')
         | Inr line \<Rightarrow>
             (None, if Some line \<noteq> last_line h
                    then h'\<lparr>last_line := Some line, printed := printed h @ [line]\<rparr> else h'))"
  by (simp add: reporthook_def Let_def split: sum.splits)




section \<open>Suppression of repeated lines\<close>

lemma hook_line_fields [simp]:
  "hook_line (h\<lparr>last_line := x\<rparr>) t = hook_line h t"
  "hook_line (h\<lparr>printed := y\<rparr>) t = hook_line h t"
  by (simp_all add: hook_line_def Let_def)

lemma full_bar_last: "last (full_bar k) = LF"
  by (simp add: full_bar_def)

lemma hook_line_last:
  "t \<noteq> - 1 \<Longrightarrow> current_size h < t \<Longrightarrow> hook_line h t = Inr line \<Longrightarrow> last line = CR"
  by (auto simp add: hook_line_def Let_def and_then_def split: sum.splits)

lemma CR_not_LF: "CR \<noteq> LF"
  by (simp add: CR_def LF_def)

lemma hook_line_not_full:
  "t \<noteq> - 1 \<Longrightarrow> current_size h < t \<Longrightarrow> hook_line h t = Inr line \<Longrightarrow> line \<noteq> full_bar k"
  using hook_line_last [of t h line] full_bar_last [of k] CR_not_LF by auto

lemma reporthook_printed:
  "printed (snd (reporthook chunk n t h)) = printed h
     \<and> last_line (snd (reporthook chunk n t h)) = last_line h
   \<or> (\<exists>line. printed (snd (reporthook chunk n t h)) = printed h @ [line]
         \<and> Some line \<noteq> last_line h \<and> last_line (snd (reporthook chunk n t h)) = Some line
         \<and> hook_line (snd (reporthook chunk n t h)) t = Inr line)"
proof -
  define h' where
    "h' = (if chunk \<noteq> PyInt 0 then h\<lparr>current_size := current_size h + n\<rparr> else h)"
  have same: "printed h' = printed h" "last_line h' = last_line h"
    by (simp_all add: h'_def)
  show ?thesis
  proof (cases "hook_line h' t")
    case (Inl e)
    then have "snd (reporthook chunk n t h) = h'"
      by (simp add: reporthook_result h'_def [symmetric] Let_def)
    then show ?thesis using same by simp
  next
    case (Inr line)
    show ?thesis
    proof (cases "Some line = last_line h")
      case True
      then have "snd (reporthook chunk n t h) = h'"
        using Inr by (simp add: reporthook_result h'_def [symmetric] Let_def)
      then show ?thesis using same by simp
    next
      case False
      then have "snd (reporthook chunk n t h)
                   = h'\<lparr>last_line := Some line, printed := printed h @ [line]\<rparr>"
        using Inr by (simp add: reporthook_result h'_def [symmetric] Let_def)
      then show ?thesis using False Inr by simp
    qed
  qed
qed

lemma printed_step:
  assumes "printed h \<noteq> []" "last_line h = Some (last (printed h))" "distinct_adj (printed h)"
  shows "printed (snd (reporthook chunk n t h)) \<noteq> []
         \<and> last_line (snd (reporthook chunk n t h))
             = Some (last (printed (snd (reporthook chunk n t h))))
         \<and> distinct_adj (printed (snd (reporthook chunk n t h)))"
  using reporthook_printed [of chunk n t h] assms
  by (auto simp add: distinct_adj_append_iff)

lemma printed_run:
  assumes "printed h \<noteq> []" "last_line h = Some (last (printed h))" "distinct_adj (printed h)"
  shows "printed (run_calls calls h) \<noteq> []
         \<and> last_line (run_calls calls h) = Some (last (printed (run_calls calls h)))
         \<and> distinct_adj (printed (run_calls calls h))"
  using assms
proof (induction calls arbitrary: h)
  case Nil
  then show ?case by simp
next
  case (Cons c calls)
  obtain chunk n t where c: "c = (chunk, n, t)" by (cases c) auto
  show ?case
    using Cons.IH [of "snd (reporthook chunk n t h)"] printed_step [OF Cons.prems, of chunk n t] c
    by simp
qed


lemma hook_line_cong:
  "current_size h1 = current_size h2 \<Longrightarrow> width h1 = width h2 \<Longrightarrow> hook_line h1 t = hook_line h2 t"
  by (simp add: hook_line_def Let_def)

lemma still_step:
  assumes "chunk = PyInt 0 \<or> n = 0"
  shows "current_size (snd (reporthook chunk n t h)) = current_size h"
  using assms by (auto simp add: reporthook_counter)

lemma reporthook_settled:
  assumes "hook_line (snd (reporthook chunk n t h)) t = Inr line"
  shows "last_line (snd (reporthook chunk n t h)) = Some line"
proof -
  define h' where
    "h' = (if chunk \<noteq> PyInt 0 then h\<lparr>current_size := current_size h + n\<rparr> else h)"
  have r: "reporthook chunk n t h =
     (case hook_line h' t of
           Inl e \<Rightarrow> (Some e, h')
         | Inr line \<Rightarrow>
             (None, if Some line \<noteq> last_line h
                    then h'\<lparr>last_line := Some line, printed := printed h @ [line]\<rparr> else h'))"
    by (simp add: reporthook_result h'_def [symmetric] Let_def)
  have l: "last_line h' = last_line h" by (simp add: h'_def)
  show ?thesis
  proof (cases "hook_line h' t")
    case (Inl e)
    then show ?thesis using assms r by simp
  next
    case (Inr line')
    then have "hook_line (snd (reporthook chunk n t h)) t = Inr line'"
      using r by simp
    then have "line' = line" using assms by simp
    then show ?thesis using Inr r l by simp
  qed
qed

text \<open>once a call has left the counter alone and printed nothing, further such calls change nothing\<close>

lemma still_quiet:
  assumes "\<forall>c \<in> set calls. (fst c = PyInt 0 \<or> fst (snd c) = 0) \<and> snd (snd c) = t"
    and "hook_line h t = Inl e \<or> (\<exists>line. hook_line h t = Inr line \<and> last_line h = Some line)"
  shows "printed (run_calls calls h) = printed h"
  using assms
proof (induction calls arbitrary: h)
  case Nil
  then show ?case by simp
next
  case (Cons c calls)
  obtain chunk n where c: "c = (chunk, n, t)" "chunk = PyInt 0 \<or> n = 0"
    using Cons.prems(1) by (cases c) auto
  let ?h1 = "snd (reporthook chunk n t h)"
  have cur: "current_size ?h1 = current_size h" using still_step [OF c(2)] .
  have line: "hook_line ?h1 t = hook_line h t"
    by (rule hook_line_cong) (simp_all add: cur)
  have keep: "printed ?h1 = printed h \<and> last_line ?h1 = last_line h"
    using reporthook_printed [of chunk n t h] Cons.prems(2) line by auto
  have "printed (run_calls calls ?h1) = printed ?h1"
    using Cons.prems line keep by (intro Cons.IH) auto
  then show ?case using c keep by simp
qed

lemma still_once:
  assumes "\<forall>c \<in> set calls. (fst c = PyInt 0 \<or> fst (snd c) = 0) \<and> snd (snd c) = t"
  shows "length (printed (run_calls calls h)) \<le> length (printed h) + 1"
proof (cases calls)
  case Nil
  then show ?thesis by simp
next
  case (Cons c rest)
  obtain chunk n where c: "c = (chunk, n, t)" "chunk = PyInt 0 \<or> n = 0"
    using assms Cons by (cases c) auto
  let ?h1 = "snd (reporthook chunk n t h)"
  have cur: "current_size ?h1 = current_size h" using still_step [OF c(2)] .
  have line: "hook_line ?h1 t = hook_line h t"
    by (rule hook_line_cong) (simp_all add: cur)
  have rest: "\<forall>c \<in> set rest. (fst c = PyInt 0 \<or> fst (snd c) = 0) \<and> snd (snd c) = t"
    using assms Cons by simp
  have settled: "hook_line ?h1 t = Inl e \<or>
      (\<exists>line. hook_line ?h1 t = Inr line \<and> last_line ?h1 = Some line)" if "hook_line h t = Inl e" for e
    using that line by simp
  have "printed (run_calls rest ?h1) = printed ?h1"
  proof (cases "hook_line ?h1 t")
    case (Inl e)
    then show ?thesis using still_quiet [OF rest, of ?h1 e] by simp
  next
    case (Inr line)
    have "last_line ?h1 = Some line"
      using Inr by (rule reporthook_settled)
    then show ?thesis using still_quiet [OF rest, of ?h1] Inr by simp
  qed
  moreover have "length (printed ?h1) \<le> length (printed h) + 1"
    using reporthook_printed [of chunk n t h] by auto
  ultimately show ?thesis using Cons c by simp
qed

lemma run_calls_width [simp]: "width (run_calls calls h) = width h"
  by (induction calls arbitrary: h) auto

text \<open>after the full bar has been printed, calls that keep the counter at or above the
  total print nothing\<close>

lemma full_stays:
  assumes "\<forall>c \<in> set calls. 0 \<le> fst (snd c) \<and> snd (snd c) = t"
    and "t \<noteq> - 1" "t \<le> current_size h" "last_line h = Some (full_bar (width h - 2))"
  shows "printed (run_calls calls h) = printed h"
  using assms
proof (induction calls arbitrary: h)
  case Nil
  then show ?case by simp
next
  case (Cons c calls)
  obtain chunk n where c: "c = (chunk, n, t)" "0 \<le> n"
    using Cons.prems(1) by (cases c) auto
  let ?h1 = "snd (reporthook chunk n t h)"
  have cur: "t \<le> current_size ?h1"
    using Cons.prems(3) c(2) by (simp add: reporthook_counter)
  have line: "hook_line ?h1 t = Inr (full_bar (width h - 2))"
    using hook_line_full [OF Cons.prems(2) cur] by simp
  have keep: "printed ?h1 = printed h \<and> last_line ?h1 = last_line h"
    using reporthook_printed [of chunk n t h] Cons.prems(4) line by auto
  have "printed (run_calls calls ?h1) = printed ?h1"
    using Cons.prems cur keep by (intro Cons.IH) auto
  then show ?case using c keep by simp
qed

lemma rising_once:
  assumes "\<forall>c \<in> set calls. fst c \<noteq> PyInt 0 \<and> 0 < fst (snd c) \<and> snd (snd c) = t"
    and "t \<noteq> - 1"
    and "count_list (printed h) (full_bar (width h - 2)) = 0"
    and "last_line h \<noteq> Some (full_bar (width h - 2))"
  shows "count_list (printed (run_calls calls h)) (full_bar (width h - 2))
         = (if calls \<noteq> [] \<and> t \<le> current_size (run_calls calls h) then 1 else 0)"
  using assms
proof (induction calls arbitrary: h)
  case Nil
  then show ?case by simp
next
  case (Cons c calls)
  obtain chunk n where c: "c = (chunk, n, t)" "chunk \<noteq> PyInt 0" "0 < n"
    using Cons.prems(1) by (cases c) auto
  let ?h1 = "snd (reporthook chunk n t h)"
  let ?full = "full_bar (width h - 2)"
  have rest: "\<forall>c \<in> set calls. fst c \<noteq> PyInt 0 \<and> 0 < fst (snd c) \<and> snd (snd c) = t"
    using Cons.prems(1) by simp
  have rest0: "\<forall>c \<in> set calls. 0 \<le> fst (snd c) \<and> snd (snd c) = t"
    using rest by (auto simp add: less_imp_le)
  have rest1: "\<forall>c \<in> set calls. 0 \<le> fst (snd c)"
    using rest0 by simp
  show ?case
  proof (cases "t \<le> current_size ?h1")
    case True
    have line: "hook_line ?h1 t = Inr ?full"
      using hook_line_full [OF Cons.prems(2) True] by simp
    have p: "printed ?h1 = printed h @ [?full]" "last_line ?h1 = Some ?full"
      using reporthook_printed [of chunk n t h] reporthook_settled [OF line] Cons.prems(4) line
      by auto
    have "printed (run_calls calls ?h1) = printed ?h1"
      using full_stays [OF rest0 Cons.prems(2) True] p(2) by simp
    moreover have "t \<le> current_size (run_calls calls ?h1)"
      using run_calls_mono [OF rest1, of ?h1] True by simp
    ultimately show ?thesis using c p(1) Cons.prems(3) by simp
  next
    case False
    then have below: "current_size ?h1 < t" by simp
    have nf: "last_line ?h1 \<noteq> Some ?full \<and> count_list (printed ?h1) ?full = 0"
      using reporthook_printed [of chunk n t h] Cons.prems(3,4)
        hook_line_not_full [OF Cons.prems(2) below, of _ "width h - 2"]
      by auto
    have "count_list (printed (run_calls calls ?h1)) (full_bar (width ?h1 - 2))
         = (if calls \<noteq> [] \<and> t \<le> current_size (run_calls calls ?h1) then 1 else 0)"
      using rest Cons.prems(2) nf by (intro Cons.IH) simp_all
    then show ?thesis using c below by (cases calls) simp_all
  qed
qed

lemma full_bar_58: "full_bar 58 = ''['' @ replicate 58 CHR ''.'' @ ''] 100%'' @ [LF]"
  by (simp add: full_bar_def bar_def repeat_def)

lemma fresh_no_full:
  "count_list (printed (snd ReportHook)) (full_bar 58) = 0"
  "last_line (snd ReportHook) \<noteq> Some (full_bar 58)"
  "width (snd ReportHook) = 60"
proof -
  have "bar 58 0 0 @ [CR] \<noteq> full_bar 58"
  proof
    assume "bar 58 0 0 @ [CR] = full_bar 58"
    then have "last (bar 58 0 0 @ [CR]) = last (full_bar 58)" by simp
    then show False using full_bar_last [of 58] CR_not_LF by simp
  qed
  then show "count_list (printed (snd ReportHook)) (full_bar 58) = 0"
    "last_line (snd ReportHook) \<noteq> Some (full_bar 58)"
    "width (snd ReportHook) = 60"
    by (simp_all add: ReportHook_value)
qed

lemma printed_reachable:
  "last_line (run_calls calls (snd ReportHook))
     = Some (last (printed (run_calls calls (snd ReportHook))))"
  "distinct_adj (printed (run_calls calls (snd ReportHook)))"
  using printed_run [of "snd ReportHook" calls] by (simp_all add: ReportHook_value)

text \<open>
  C8: a call prints nothing, or prints one line that differs from the last one printed and
  becomes the last one printed; so on a reporter as constructed, after any sequence of calls,
  the stored line is the last line printed and no line is printed twice in a row. Calls that
  leave the counter alone and name the same total print at most one line between them. On a
  new reporter, calls with a bytes chunk and a positive chunk size that raise the counter
  to a fixed total (other than the unknown-size sentinel) or beyond print the full 100% bar
  exactly once.
\<close>

theorem reporthook_dedup:
  "(printed (snd (reporthook chunk n t h)) = printed h
      \<and> last_line (snd (reporthook chunk n t h)) = last_line h
    \<or> (\<exists>line. printed (snd (reporthook chunk n t h)) = printed h @ [line]
          \<and> Some line \<noteq> last_line h
          \<and> last_line (snd (reporthook chunk n t h)) = Some line
          \<and> hook_line (snd (reporthook chunk n t h)) t = Inr line))
   \<and> last_line (run_calls calls (snd ReportHook))
       = Some (last (printed (run_calls calls (snd ReportHook))))
   \<and> distinct_adj (printed (run_calls calls (snd ReportHook)))
   \<and> ((\<forall>c \<in> set same. (fst c = PyInt 0 \<or> fst (snd c) = 0) \<and> snd (snd c) = t)
        \<longrightarrow> length (printed (run_calls same h)) \<le> length (printed h) + 1)
   \<and> (rising \<noteq> [] \<and> t \<noteq> - 1
        \<and> (\<forall>c \<in> set rising. fst c \<noteq> PyInt 0 \<and> 0 < fst (snd c) \<and> snd (snd c) = t)
        \<and> t \<le> current_size (run_calls rising (snd ReportHook))
        \<longrightarrow> count_list (printed (run_calls rising (snd ReportHook))) (full_bar 58) = 1)"
proof -
  have "count_list (printed (run_calls rising (snd ReportHook))) (full_bar 58) = 1"
    if "rising \<noteq> []" "t \<noteq> - 1"
      "\<forall>c \<in> set rising. fst c \<noteq> PyInt 0 \<and> 0 < fst (snd c) \<and> snd (snd c) = t"
      "t \<le> current_size (run_calls rising (snd ReportHook))"
    using rising_once [OF that(3,2), of "snd ReportHook"] fresh_no_full that(1,4) by simp
  then show ?thesis
    using reporthook_printed [of chunk n t h] printed_reachable [of calls] still_once [of same t h]
    by blast
qed

theorem reporthook_dedup_witness:
  "count_list (printed (run_calls [(PyBytes ''ab'', 1024, 2000), (PyBytes ''cd'', 1024, 2000),
        (PyBytes ''e'', 1024, 2000)] (snd ReportHook))) (full_bar 58) = 1
   \<and> length (printed (run_calls [(PyInt 0, 0, 100), (PyInt 0, 0, 100)] (snd ReportHook))) \<le> 2"
  using reporthook_dedup [of "PyInt 0" 0 2000 "snd ReportHook" "[]" "[]"
      "[(PyBytes ''ab'', 1024, 2000), (PyBytes ''cd'', 1024, 2000), (PyBytes ''e'', 1024, 2000)]"]
    reporthook_dedup [of "PyInt 0" 0 100 "snd ReportHook" "[]"
      "[(PyInt 0, 0, 100), (PyInt 0, 0, 100)]" "[]"]
  by (simp add: reporthook_counter ReportHook_value)

end
